theory Spec2Isabelle
  imports Main
begin

section \<open>XML element trees\<close>

text \<open>
  The program (\<^verbatim>\<open>psg/cli.py\<close>) works on lxml element trees. An element has a tag, an
  attribute dictionary, an optional text before its first child, an optional tail after
  its closing tag, and its children in document order. Python's \<^verbatim>\<open>None\<close> for a missing
  text, tail or attribute is \<open>None\<close> here. A comment or processing instruction is an
  element whose tag is not a name (so it is neither \<^verbatim>\<open>ref\<close>, \<^verbatim>\<open>xref\<close> nor \<^verbatim>\<open>p\<close>).
\<close>

datatype element =
  Element (tag: string) (attrib: "(string \<times> string) list")
    (etext: "string option") (tail: "string option") (getchildren: "element list")

definition get :: "element \<Rightarrow> string \<Rightarrow> string option" where
  \<comment> \<open>\<^verbatim>\<open>node.get(key)\<close>: the attribute's value, or \<^verbatim>\<open>None\<close>.\<close>
  "get node key = map_of (attrib node) key"

definition findall_children :: "string \<Rightarrow> element \<Rightarrow> element list" where
  \<comment> \<open>\<^verbatim>\<open>node.findall("ref")\<close>: the children with that tag, in document order.\<close>
  "findall_children t node = filter (\<lambda>c. tag c = t) (getchildren node)"

fun descendants :: "element \<Rightarrow> element list" where
  "descendants (Element t a tx ta cs) = concat (map (\<lambda>c. c # descendants c) cs)"

definition findall_descendants :: "string \<Rightarrow> element \<Rightarrow> element list" where
  \<comment> \<open>\<^verbatim>\<open>node.findall(".//xref")\<close>: the descendants with that tag, in document order.\<close>
  "findall_descendants t node = filter (\<lambda>c. tag c = t) (descendants node)"

definition or_empty :: "string option \<Rightarrow> string" where
  \<comment> \<open>\<^verbatim>\<open>s or ""\<close>\<close>
  "or_empty s = (case s of None \<Rightarrow> '''' | Some x \<Rightarrow> x)"

section \<open>Python dictionaries\<close>

text \<open>
  A \<^verbatim>\<open>dict\<close> keeps its keys in insertion order; storing under a key that is already
  there replaces the value and keeps the key's position.
\<close>

fun dict_set :: "('k \<times> 'v) list \<Rightarrow> 'k \<Rightarrow> 'v \<Rightarrow> ('k \<times> 'v) list" where
  "dict_set [] k v = [(k, v)]"
| "dict_set ((k', v') # d) k v =
     (if k' = k then (k', v) # d else (k', v') # dict_set d k v)"

definition dict_get :: "('k \<times> 'v) list \<Rightarrow> 'k \<Rightarrow> 'v option" where
  \<comment> \<open>\<^verbatim>\<open>d.get(k)\<close>: \<^verbatim>\<open>None\<close> for a missing key, no exception.\<close>
  "dict_get d k = map_of d k"

definition dict_keys :: "('k \<times> 'v) list \<Rightarrow> 'k list" where
  "dict_keys d = map fst d"

section \<open>The generator object\<close>

datatype error = ValueError | AttributeError | IndexError | OSError | XMLSyntaxError

text \<open>
  The attributes of a \<^verbatim>\<open>Generator\<close>. A rule id is \<^verbatim>\<open>ref.get("id")\<close>, which is \<^verbatim>\<open>None\<close>
  for a \<^verbatim>\<open>ref\<close> without the attribute, so the keys of \<open>refs\<close> are optional strings.
  \<open>rand_calls\<close> is not an attribute: it counts the draws made so far from the
  module-level random generator, which \<^verbatim>\<open>random.choice\<close> advances.
\<close>

record generator =
  grammar :: element
  refs :: "(string option \<times> element) list"
  source :: element
  pieces :: "string list"
  capitalize_next_word :: bool
  rand_calls :: nat

text \<open>
  A call either returns a value or raises; both leave the object in some state.
\<close>

datatype 'a result = Return 'a generator | Raise error generator

fun state_of :: "'a result \<Rightarrow> generator" where
  "state_of (Return v g) = g"
| "state_of (Raise e g) = g"

text \<open>
  The random source is a sequence \<open>rnd\<close> of natural numbers: the \<open>k\<close>-th draw picks
  the element at index \<open>rnd k mod length xs\<close>. Every index \<^verbatim>\<open>random.choice\<close> can pick is
  picked by some sequence. \<^verbatim>\<open>choice\<close> raises \<^verbatim>\<open>IndexError\<close> on an empty sequence.
\<close>

definition choice :: "(nat \<Rightarrow> nat) \<Rightarrow> generator \<Rightarrow> 'a list \<Rightarrow> 'a result" where
  "choice rnd g xs =
     (if xs = [] then Raise IndexError g
      else Return (xs ! (rnd (rand_calls g) mod length xs))
             (g\<lparr>rand_calls := Suc (rand_calls g)\<rparr>))"

definition random_child_element ::
  "(nat \<Rightarrow> nat) \<Rightarrow> generator \<Rightarrow> element option \<Rightarrow> element result" where
  \<comment> \<open>\<^verbatim>\<open>choice(node.getchildren())\<close>; \<^verbatim>\<open>None.getchildren()\<close> raises \<^verbatim>\<open>AttributeError\<close>.\<close>
  "random_child_element rnd g node =
     (case node of
        None \<Rightarrow> Raise AttributeError g
      | Some el \<Rightarrow> choice rnd g (getchildren el))"

section \<open>Expansion\<close>

text \<open>
  \<^verbatim>\<open>parse\<close> dispatches on the tag: \<^verbatim>\<open>getattr(self, "parse_" + tag)\<close> finds \<^verbatim>\<open>parse_xref\<close>
  and \<^verbatim>\<open>parse_p\<close> and raises \<^verbatim>\<open>AttributeError\<close> for every other tag. The recursion
  through \<^verbatim>\<open>parse_xref\<close> follows the rule mapping and need not end, so the functions
  take fuel: the number of nested reference expansions still allowed. \<open>None\<close> means
  that the fuel ran out. \<open>parse_children\<close> is the loop of \<^verbatim>\<open>parse_p\<close> over
  \<^verbatim>\<open>node.iterchildren()\<close>; an exception ends it.
\<close>

fun parse :: "(nat \<Rightarrow> nat) \<Rightarrow> nat \<Rightarrow> generator \<Rightarrow> element \<Rightarrow> unit result option"
  and parse_xref :: "(nat \<Rightarrow> nat) \<Rightarrow> nat \<Rightarrow> generator \<Rightarrow> element \<Rightarrow> unit result option"
  and parse_p :: "(nat \<Rightarrow> nat) \<Rightarrow> nat \<Rightarrow> generator \<Rightarrow> element \<Rightarrow> unit result option"
  and parse_children ::
    "(nat \<Rightarrow> nat) \<Rightarrow> nat \<Rightarrow> generator \<Rightarrow> element list \<Rightarrow> unit result option"
where
  "parse rnd n g (Element t a tx ta cs) =
     (if t = ''xref'' then parse_xref rnd n g (Element t a tx ta cs)
      else if t = ''p'' then parse_p rnd n g (Element t a tx ta cs)
      else Some (Raise AttributeError g))"
| "parse_xref rnd n g (Element t a tx ta cs) =
     (case random_child_element rnd g (dict_get (refs g) (map_of a ''id'')) of
        Raise e g' \<Rightarrow> Some (Raise e g')
      | Return child g' \<Rightarrow>
          (case n of
             0 \<Rightarrow> None
           | Suc m \<Rightarrow>
               (case parse rnd m g' child of
                  Some (Return u g'') \<Rightarrow>
                    Some (Return () (g''\<lparr>pieces := pieces g'' @ [or_empty ta]\<rparr>))
                | other \<Rightarrow> other)))"
| "parse_p rnd n g (Element t a tx ta cs) =
     parse_children rnd n (g\<lparr>pieces := pieces g @ [or_empty tx]\<rparr>) cs"
| "parse_children rnd n g [] = Some (Return () g)"
| "parse_children rnd n g (c # cs) =
     (case parse rnd n g c of
        Some (Return u g') \<Rightarrow> parse_children rnd n g' cs
      | other \<Rightarrow> other)"

definition reset :: "generator \<Rightarrow> generator" where
  "reset g = g\<lparr>pieces := [], capitalize_next_word := False\<rparr>"

definition output_text :: "generator \<Rightarrow> string" where
  \<comment> \<open>\<^verbatim>\<open>Generator.output\<close>: \<^verbatim>\<open>"".join(self.pieces)\<close>\<close>
  "output_text g = concat (pieces g)"

definition refresh :: "(nat \<Rightarrow> nat) \<Rightarrow> nat \<Rightarrow> generator \<Rightarrow> string result option" where
  "refresh rnd n g =
     (case parse rnd n (reset g) (source (reset g)) of
        None \<Rightarrow> None
      | Some (Raise e g') \<Rightarrow> Some (Raise e g')
      | Some (Return u g') \<Rightarrow> Some (Return (output_text g') g'))"

section \<open>Loading\<close>

text \<open>
  \<^verbatim>\<open>open_anything\<close> takes an object with a \<^verbatim>\<open>read\<close> method (a stream, given here by its
  content) or a string; a \<^verbatim>\<open>Path\<close> behaves as the string it prints as. The file system is
  the list of the readable paths with their contents; \<^verbatim>\<open>open\<close> raises \<^verbatim>\<open>OSError\<close> (a
  missing file, a directory, no permission) for every other path. The result is the
  text of the stream that \<^verbatim>\<open>open_anything\<close> returns. Outside the model: a string with
  a NUL character, which \<^verbatim>\<open>open\<close> rejects with \<^verbatim>\<open>ValueError\<close>, and a failure while an
  opened stream is read.
\<close>

datatype source_arg = Stream string | Text string

record env =
  files :: "(string \<times> string) list"
  stdin :: string

definition py_open :: "env \<Rightarrow> string \<Rightarrow> error + string" where
  "py_open w path = (case map_of (files w) path of None \<Rightarrow> Inl OSError | Some c \<Rightarrow> Inr c)"

definition open_anything :: "env \<Rightarrow> source_arg \<Rightarrow> error + string" where
  "open_anything w src =
     (case src of
        Stream c \<Rightarrow> Inr c
      | Text s \<Rightarrow>
          if s = ''-'' then Inr (stdin w)
          else (case py_open w s of
                  Inr c \<Rightarrow> Inr c
                | Inl e \<Rightarrow> if e = OSError then Inr s else Inl e))"

text \<open>
  \<^verbatim>\<open>etree.parse\<close> belongs to lxml, not to the program: it is a parameter \<open>prs\<close>, which
  gives the root element of a well-formed document and \<open>None\<close> where lxml raises
  \<^verbatim>\<open>XMLSyntaxError\<close>.
\<close>

type_synonym xml_parser = "string \<Rightarrow> element option"

definition private_load :: "env \<Rightarrow> xml_parser \<Rightarrow> generator \<Rightarrow> source_arg \<Rightarrow> element result" where
  \<comment> \<open>\<^verbatim>\<open>Generator._load\<close> (a name cannot begin with an underscore here)\<close>
  "private_load w prs g stuff =
     (case open_anything w stuff of
        Inl e \<Rightarrow> Raise e g
      | Inr sock \<Rightarrow>
          (case prs sock of
             None \<Rightarrow> Raise XMLSyntaxError g
           | Some root \<Rightarrow> Return root g))"

definition index_refs :: "element \<Rightarrow> (string option \<times> element) list" where
  \<comment> \<open>the loop of \<^verbatim>\<open>load_grammar\<close>: \<^verbatim>\<open>self.refs[ref.get("id")] = ref\<close> for every \<^verbatim>\<open>ref\<close> child\<close>
  "index_refs root =
     foldl (\<lambda>d r. dict_set d (get r ''id'') r) [] (findall_children ''ref'' root)"

definition load_grammar :: "env \<Rightarrow> xml_parser \<Rightarrow> generator \<Rightarrow> source_arg \<Rightarrow> unit result" where
  "load_grammar w prs g gr =
     (case private_load w prs g gr of
        Raise e g' \<Rightarrow> Raise e g'
      | Return root g' \<Rightarrow> Return () (g'\<lparr>grammar := root, refs := index_refs root\<rparr>))"

definition load_source :: "env \<Rightarrow> xml_parser \<Rightarrow> generator \<Rightarrow> source_arg \<Rightarrow> unit result" where
  "load_source w prs g src =
     (case private_load w prs g src of
        Raise e g' \<Rightarrow> Raise e g'
      | Return root g' \<Rightarrow> Return () (g'\<lparr>source := root\<rparr>))"

definition str_of_id :: "string option \<Rightarrow> string" where
  \<comment> \<open>how an f-string formats a key: \<^verbatim>\<open>None\<close> prints as its name\<close>
  "str_of_id k = (case k of None \<Rightarrow> ''None'' | Some s \<Rightarrow> s)"

definition xref_markup :: "string \<Rightarrow> string" where
  \<open>xref_markup s = ''<xref id="'' @ s @ ''"/>''\<close>

definition get_default_source :: "(nat \<Rightarrow> nat) \<Rightarrow> generator \<Rightarrow> string result" where
  "get_default_source rnd g =
     (let xrefs = dict_keys (foldl (\<lambda>d x. dict_set d (get x ''id'') (1::nat)) []
                               (findall_descendants ''xref'' (grammar g)));
          standalone_xrefs = filter (\<lambda>e. e \<notin> set xrefs) (dict_keys (refs g))
      in if standalone_xrefs = [] then Raise ValueError g
         else (case choice rnd g standalone_xrefs of
                 Raise e g' \<Rightarrow> Raise e g'
               | Return xrefid g' \<Rightarrow> Return (xref_markup (str_of_id xrefid)) g'))"

text \<open>
  \<^verbatim>\<open>Generator.__init__(grammar, source)\<close>. The object \<open>g\<close> stands for the new instance:
  every attribute is assigned before it is read. \<^verbatim>\<open>source and source or ...\<close> takes the
  default for \<^verbatim>\<open>None\<close> and for the empty string.
\<close>

definition init ::
  "env \<Rightarrow> xml_parser \<Rightarrow> (nat \<Rightarrow> nat) \<Rightarrow> nat \<Rightarrow> generator \<Rightarrow> source_arg \<Rightarrow> string option
     \<Rightarrow> unit result option" where
  "init w prs rnd n g gr src =
     (case load_grammar w prs g gr of
        Raise e g1 \<Rightarrow> Some (Raise e g1)
      | Return u g1 \<Rightarrow>
          (case (case src of
                   None \<Rightarrow> get_default_source rnd g1
                 | Some s \<Rightarrow> if s = [] then get_default_source rnd g1 else Return s g1) of
             Raise e g2 \<Rightarrow> Some (Raise e g2)
           | Return s g2 \<Rightarrow>
               (case load_source w prs g2 (Text s) of
                  Raise e g3 \<Rightarrow> Some (Raise e g3)
                | Return u g3 \<Rightarrow>
                    (case refresh rnd n g3 of
                       None \<Rightarrow> None
                     | Some (Raise e g4) \<Rightarrow> Some (Raise e g4)
                     | Some (Return out g4) \<Rightarrow> Some (Return () g4)))))"

section \<open>Reference nesting\<close>

text \<open>
  The reference-nesting depth of a node: how many reference expansions can be nested
  inside one another when the node is expanded, whatever alternatives are chosen. A
  reference that resolves to a rule with alternatives counts one more than the deepest
  alternative; a paragraph counts as its deepest child. The count stops at \<open>m + 1\<close>, so
  a value of at most \<open>m\<close> is the exact depth and says that no chain of references from
  the node runs into a cycle.
\<close>

fun ref_depth :: "nat \<Rightarrow> (string option \<times> element) list \<Rightarrow> element \<Rightarrow> nat"
  and ref_depth_list :: "nat \<Rightarrow> (string option \<times> element) list \<Rightarrow> element list \<Rightarrow> nat"
where
  "ref_depth m rs (Element t a tx ta cs) =
     (if t = ''xref'' then
        (case dict_get rs (map_of a ''id'') of
           None \<Rightarrow> 0
         | Some el \<Rightarrow>
             if getchildren el = [] then 0
             else (case m of
                     0 \<Rightarrow> 1
                   | Suc k \<Rightarrow> Suc (ref_depth_list k rs (getchildren el))))
      else if t = ''p'' then ref_depth_list m rs cs
      else 0)"
| "ref_depth_list m rs [] = 0"
| "ref_depth_list m rs (c # cs) = max (ref_depth m rs c) (ref_depth_list m rs cs)"

section \<open>What a call may change\<close>

text \<open>
  \<open>extends g g'\<close>: the state \<open>g'\<close> is \<open>g\<close> with fragments appended to \<open>pieces\<close> and
  with more draws made; every other attribute is as in \<open>g\<close>.
\<close>

definition extends :: "generator \<Rightarrow> generator \<Rightarrow> bool" where
  "extends g g' \<longleftrightarrow>
     (\<exists>ys k. g' = g\<lparr>pieces := pieces g @ ys, rand_calls := rand_calls g + k\<rparr>)"

fun map_state :: "(generator \<Rightarrow> generator) \<Rightarrow> 'a result \<Rightarrow> 'a result" where
  "map_state f (Return v g) = Return v (f g)"
| "map_state f (Raise e g) = Raise e (f g)"

section \<open>Example grammars\<close>

text \<open>
  The random source that always picks the first alternative, and the one that always
  picks the second of two.
\<close>

definition first_choice :: "nat \<Rightarrow> nat" where
  "first_choice k = 0"

definition second_choice :: "nat \<Rightarrow> nat" where
  "second_choice k = 1"

text \<open>An instance before \<^verbatim>\<open>__init__\<close> has assigned anything, and a machine without files.\<close>

definition blank :: generator where
  "blank = \<lparr>grammar = Element [] [] None None [], refs = [],
     source = Element [] [] None None [], pieces = [], capitalize_next_word = False,
     rand_calls = 0\<rparr>"

definition no_files :: env where
  "no_files = \<lparr>files = [], stdin = []\<rparr>"

definition xref_to :: "string \<Rightarrow> element" where
  \<comment> \<open>the root element of the start expression \<^verbatim>\<open><xref id="..."/>\<close>\<close>
  "xref_to s = Element ''xref'' [(''id'', s)] None None []"

text \<open>
  A parser given by a table of documents: it reads the listed texts as the listed trees
  and rejects every other text.
\<close>

definition table_parser :: "(string \<times> element) list \<Rightarrow> xml_parser" where
  "table_parser t = map_of t"

text \<open>Rule \<^verbatim>\<open>x\<close> is \<^verbatim>\<open>hi\<close>; rule \<^verbatim>\<open>root\<close> refers to \<^verbatim>\<open>x\<close> and goes on with \<^verbatim>\<open>!\<close>.\<close>

definition hi_doc :: string where
  \<open>hi_doc =
     ''<grammar><ref id="x"><p>hi</p></ref><ref id="root"><p><xref id="x"/>!</p></ref></grammar>''\<close>

definition hi_grammar :: element where
  "hi_grammar =
     Element ''grammar'' [] None None
       [Element ''ref'' [(''id'', ''x'')] None None [Element ''p'' [] (Some ''hi'') None []],
        Element ''ref'' [(''id'', ''root'')] None None
          [Element ''p'' [] None None
             [Element ''xref'' [(''id'', ''x'')] None (Some ''!'') []]]]"

definition hi_parser :: xml_parser where
  "hi_parser =
     table_parser [(hi_doc, hi_grammar), (xref_markup ''root'', xref_to ''root''),
       (xref_markup ''x'', xref_to ''x'')]"

definition hi_generator :: generator where
  "hi_generator = state_of (load_grammar no_files hi_parser blank (Text hi_doc))"

text \<open>One rule with one paragraph of plain text.\<close>

definition hello_doc :: string where
  \<open>hello_doc = ''<grammar><ref id="greeting"><p>hello world</p></ref></grammar>''\<close>

definition hello_grammar :: element where
  "hello_grammar =
     Element ''grammar'' [] None None
       [Element ''ref'' [(''id'', ''greeting'')] None None
          [Element ''p'' [] (Some ''hello world'') None []]]"

definition hello_parser :: xml_parser where
  "hello_parser =
     table_parser [(hello_doc, hello_grammar), (xref_markup ''greeting'', xref_to ''greeting'')]"

definition hello_generator :: generator where
  "hello_generator =
     state_of (load_source no_files hello_parser
       (state_of (load_grammar no_files hello_parser blank (Text hello_doc)))
       (Text (xref_markup ''greeting'')))"

text \<open>
  Rule \<^verbatim>\<open>a\<close> has two alternatives: plain text, or a reference to rule \<^verbatim>\<open>b\<close>. Its
  references nest two deep.
\<close>

definition ab_doc :: string where
  \<open>ab_doc =
     ''<grammar><ref id="a"><p>x</p><p><xref id="b"/></p></ref><ref id="b"><p>y</p></ref></grammar>''\<close>

definition ab_grammar :: element where
  "ab_grammar =
     Element ''grammar'' [] None None
       [Element ''ref'' [(''id'', ''a'')] None None
          [Element ''p'' [] (Some ''x'') None [],
           Element ''p'' [] None None [Element ''xref'' [(''id'', ''b'')] None None []]],
        Element ''ref'' [(''id'', ''b'')] None None [Element ''p'' [] (Some ''y'') None []]]"

definition ab_parser :: xml_parser where
  "ab_parser = table_parser [(ab_doc, ab_grammar), (xref_markup ''a'', xref_to ''a'')]"

definition ab_generator :: generator where
  "ab_generator =
     state_of (load_source no_files ab_parser
       (state_of (load_grammar no_files ab_parser blank (Text ab_doc)))
       (Text (xref_markup ''a'')))"

text \<open>
  A document the loader accepts although its rules are not as the data model wants
  them: two rules share the id \<^verbatim>\<open>a\<close>, one has no id, one has the empty id, and one
  (\<^verbatim>\<open>e\<close>) has no paragraph.
\<close>

definition odd_doc :: string where
  \<open>odd_doc =
     ''<grammar><ref id="a"><p>1</p></ref><ref id="a"><p>2</p></ref><ref><p>3</p></ref><ref id=""><p>4</p></ref><ref id="e"/></grammar>''\<close>

definition odd_grammar :: element where
  "odd_grammar =
     Element ''grammar'' [] None None
       [Element ''ref'' [(''id'', ''a'')] None None [Element ''p'' [] (Some ''1'') None []],
        Element ''ref'' [(''id'', ''a'')] None None [Element ''p'' [] (Some ''2'') None []],
        Element ''ref'' [] None None [Element ''p'' [] (Some ''3'') None []],
        Element ''ref'' [(''id'', [])] None None [Element ''p'' [] (Some ''4'') None []],
        Element ''ref'' [(''id'', ''e'')] None None []]"

definition odd_parser :: xml_parser where
  "odd_parser =
     table_parser [(odd_doc, odd_grammar), (xref_markup ''e'', xref_to ''e''),
       (xref_markup ''a'', xref_to ''a'')]"


text \<open>Two rules that refer to each other: no rule stands alone.\<close>

definition loop_doc :: string where
  \<open>loop_doc =
     ''<grammar><ref id="a"><p><xref id="b"/></p></ref><ref id="b"><p><xref id="a"/></p></ref></grammar>''\<close>

definition loop_grammar :: element where
  "loop_grammar =
     Element ''grammar'' [] None None
       [Element ''ref'' [(''id'', ''a'')] None None
          [Element ''p'' [] None None [Element ''xref'' [(''id'', ''b'')] None None []]],
        Element ''ref'' [(''id'', ''b'')] None None
          [Element ''p'' [] None None [Element ''xref'' [(''id'', ''a'')] None None []]]]"

definition loop_parser :: xml_parser where
  "loop_parser = table_parser [(loop_doc, loop_grammar)]"

definition loop_generator :: generator where
  "loop_generator = state_of (load_grammar no_files loop_parser blank (Text loop_doc))"

section \<open>Induction over an expansion\<close>

text \<open>
  \<^verbatim>\<open>parse\<close>, \<^verbatim>\<open>parse_xref\<close> and \<^verbatim>\<open>parse_p\<close> call one another on the same node. The
  induction rule below has one case for an element (with a hypothesis for the chosen
  alternative of a reference, and one for the children of a paragraph) and two for the
  loop over the children.
\<close>

lemma parse_induct:
  assumes elem: "\<And>rnd n g t a tx ta cs.
      (\<And>child g' m. t = ''xref'' \<Longrightarrow>
          random_child_element rnd g (dict_get (refs g) (map_of a ''id'')) = Return child g' \<Longrightarrow>
          n = Suc m \<Longrightarrow> P rnd m g' child) \<Longrightarrow>
      (t \<noteq> ''xref'' \<Longrightarrow> t = ''p'' \<Longrightarrow> Q rnd n (g\<lparr>pieces := pieces g @ [or_empty tx]\<rparr>) cs) \<Longrightarrow>
      P rnd n g (Element t a tx ta cs)"
    and nil: "\<And>rnd n g. Q rnd n g []"
    and cons: "\<And>rnd n g c cs.
      P rnd n g c \<Longrightarrow>
      (\<And>r u g'. parse rnd n g c = Some r \<Longrightarrow> r = Return u g' \<Longrightarrow> Q rnd n g' cs) \<Longrightarrow>
      Q rnd n g (c # cs)"
  shows "P rnd0 n0 g0 node0" and "Q rnd1 n1 g1 cs1"
proof -
  let ?X = "\<lambda>rnd n g node. \<forall>child g' m.
      random_child_element rnd g (dict_get (refs g) (map_of (attrib node) ''id'')) = Return child g' \<longrightarrow>
      n = Suc m \<longrightarrow> P rnd m g' child"
  let ?Y = "\<lambda>rnd n (g::generator) node.
      Q rnd n (g\<lparr>pieces := pieces g @ [or_empty (etext node)]\<rparr>) (getchildren node)"
  have step1: "P rnd n g (Element t a tx ta cs)"
    if "t = ''xref'' \<Longrightarrow> ?X rnd n g (Element t a tx ta cs)"
      and "t \<noteq> ''xref'' \<Longrightarrow> t = ''p'' \<Longrightarrow> ?Y rnd n g (Element t a tx ta cs)"
    for rnd n g t a tx ta cs
  proof (rule elem)
    fix child g' m
    assume "t = ''xref''"
      "random_child_element rnd g (dict_get (refs g) (map_of a ''id'')) = Return child g'"
      "n = Suc m"
    with that(1) show "P rnd m g' child" by simp
  next
    assume "t \<noteq> ''xref''" "t = ''p''"
    with that(2) show "Q rnd n (g\<lparr>pieces := pieces g @ [or_empty tx]\<rparr>) cs" by simp
  qed
  have step2: "?X rnd n g (Element t a tx ta cs)"
    if "\<And>child g' m.
        random_child_element rnd g (dict_get (refs g) (map_of a ''id'')) = Return child g' \<Longrightarrow>
        n = Suc m \<Longrightarrow> P rnd m g' child"
    for rnd n g t a tx ta cs
    using that by simp
  have step3: "?Y rnd n g (Element t a tx ta cs)"
    if "Q rnd n (g\<lparr>pieces := pieces g @ [or_empty tx]\<rparr>) cs"
    for rnd n g t a tx ta cs
    using that by simp
  have step5: "Q rnd n g (c # cs)"
    if "P rnd n g c"
      and "\<And>r u g'. parse rnd n g c = Some r \<Longrightarrow> r = Return u g' \<Longrightarrow> Q rnd n g' cs"
    for rnd n g c cs
    using that by (rule cons)
  show "P rnd0 n0 g0 node0"
    by (rule parse_parse_xref_parse_p_parse_children.induct(1)
          [where ?P = P and ?Q = ?X and ?R = ?Y and ?S = Q])
       (fact step1 step2 step3 nil step5)+
  show "Q rnd1 n1 g1 cs1"
    by (rule parse_parse_xref_parse_p_parse_children.induct(4)
          [where ?P = P and ?Q = ?X and ?R = ?Y and ?S = Q])
       (fact step1 step2 step3 nil step5)+
qed

section \<open>Dictionaries built by a loop\<close>

lemma dict_set_keys: "set (dict_keys (dict_set d k v)) = insert k (set (dict_keys d))"
  by (induction d k v rule: dict_set.induct) (auto simp: dict_keys_def)

lemma dict_set_distinct: "distinct (dict_keys d) \<Longrightarrow> distinct (dict_keys (dict_set d k v))"
proof (induction d k v rule: dict_set.induct)
  case (1 k v)
  show ?case by (simp add: dict_keys_def)
next
  case (2 k' v' d k v)
  show ?case
  proof (cases "k' = k")
    case True
    with "2.prems" show ?thesis by (simp add: dict_keys_def)
  next
    case False
    from "2.prems" have d: "distinct (dict_keys d)" and n: "k' \<notin> set (dict_keys d)"
      by (simp_all add: dict_keys_def)
    from "2.IH" [OF False d] have "distinct (dict_keys (dict_set d k v))" .
    moreover from n False have "k' \<notin> set (dict_keys (dict_set d k v))"
      by (simp add: dict_set_keys)
    ultimately show ?thesis using False by (simp add: dict_keys_def)
  qed
qed

lemma dict_get_set:
  "dict_get (dict_set d k v) k' = (if k' = k then Some v else dict_get d k')"
  by (induction d k v rule: dict_set.induct) (auto simp: dict_get_def)

lemma dict_fill_keys:
  "set (dict_keys (foldl (\<lambda>d x. dict_set d (f x) (h x)) d0 xs)) = set (dict_keys d0) \<union> f ` set xs"
  by (induction xs arbitrary: d0) (auto simp: dict_set_keys)

lemma dict_fill_distinct:
  "distinct (dict_keys d0) \<Longrightarrow> distinct (dict_keys (foldl (\<lambda>d x. dict_set d (f x) (h x)) d0 xs))"
  by (induction xs arbitrary: d0) (auto simp: dict_set_distinct)

lemma dict_fill_get:
  "dict_get (foldl (\<lambda>d x. dict_set d (f x) (h x)) d0 xs) k =
     (case filter (\<lambda>x. f x = k) xs of [] \<Rightarrow> dict_get d0 k | y # ys \<Rightarrow> Some (h (last (y # ys))))"
proof (induction xs rule: rev_induct)
  case Nil
  show ?case by simp
next
  case (snoc x xs)
  show ?case
  proof (cases "f x = k")
    case True
    then show ?thesis
      by (cases "filter (\<lambda>x. f x = k) xs") (simp_all add: dict_get_set)
  next
    case False
    with snoc show ?thesis by (simp add: dict_get_set) 
  qed
qed

lemma index_refs_keys:
  "set (dict_keys (index_refs root)) = (\<lambda>r. get r ''id'') ` set (findall_children ''ref'' root)"
  using dict_fill_keys [of "\<lambda>r. get r ''id''" "\<lambda>r. r" "[]" "findall_children ''ref'' root"]
  by (simp add: index_refs_def dict_keys_def)

lemma index_refs_distinct: "distinct (dict_keys (index_refs root))"
  unfolding index_refs_def by (rule dict_fill_distinct) (simp add: dict_keys_def)

lemma index_refs_get:
  "dict_get (index_refs root) k =
     (case filter (\<lambda>r. get r ''id'' = k) (findall_children ''ref'' root) of
        [] \<Rightarrow> None
      | y # ys \<Rightarrow> Some (last (y # ys)))"
  using dict_fill_get [of "\<lambda>r. get r ''id''" "\<lambda>r. r" "[]" "findall_children ''ref'' root" k]
  by (simp add: index_refs_def dict_get_def split: list.splits)

section \<open>Expansion only appends to the accumulator\<close>

lemma extends_refl: "extends g g"
  unfolding extends_def by (rule exI [of _ "[]"], rule exI [of _ 0]) simp

lemma extends_trans: "extends g g' \<Longrightarrow> extends g' g'' \<Longrightarrow> extends g g''"
  unfolding extends_def
proof (elim exE)
  fix ys k zs j
  assume a: "g' = g\<lparr>pieces := pieces g @ ys, rand_calls := rand_calls g + k\<rparr>"
    and b: "g'' = g'\<lparr>pieces := pieces g' @ zs, rand_calls := rand_calls g' + j\<rparr>"
  have "g'' = g\<lparr>pieces := pieces g @ (ys @ zs), rand_calls := rand_calls g + (k + j)\<rparr>"
    by (simp add: a b)
  then show "\<exists>ys k. g'' = g\<lparr>pieces := pieces g @ ys, rand_calls := rand_calls g + k\<rparr>"
    by blast
qed

lemma extends_append: "extends g (g\<lparr>pieces := pieces g @ ys\<rparr>)"
  unfolding extends_def by (rule exI [of _ ys], rule exI [of _ 0]) simp

lemma extends_draw: "extends g (g\<lparr>rand_calls := Suc (rand_calls g)\<rparr>)"
  unfolding extends_def by (rule exI [of _ "[]"], rule exI [of _ 1]) simp

lemma choice_extends: "extends g (state_of (choice rnd g xs))"
  by (simp add: choice_def extends_refl extends_draw)

lemma random_child_element_extends: "extends g (state_of (random_child_element rnd g node))"
  by (cases node) (simp_all add: random_child_element_def extends_refl choice_extends)

lemma parse_extends:
  "parse rnd n g node = Some r \<Longrightarrow> extends g (state_of r)"
  and parse_children_extends:
  "parse_children rnd n g cs = Some r' \<Longrightarrow> extends g (state_of r')"
proof (induction rnd n g node and rnd n g cs arbitrary: r and r' rule: parse_induct)
  case (1 rnd n g t a tx ta cs)
  let ?rc = "random_child_element rnd g (dict_get (refs g) (map_of a ''id''))"
  have rc: "extends g (state_of ?rc)" by (rule random_child_element_extends)
  show ?case
  proof (cases "t = ''xref''")
    case True
    show ?thesis
    proof (cases ?rc)
      case (Raise e g')
      with True "1.prems" rc show ?thesis by auto
    next
      case (Return child g')
      show ?thesis
      proof (cases n)
        case 0
        with True Return "1.prems" show ?thesis by simp
      next
        case (Suc m)
        from True Return Suc "1.prems" obtain r0 where r0: "parse rnd m g' child = Some r0"
          by (auto split: option.splits)
        have e1: "extends g' (state_of r0)"
          using "1.IH"(1) [OF True Return Suc r0] .
        from rc Return have e0: "extends g g'" by simp
        show ?thesis
        proof (cases r0)
          case (Raise e g'')
          with True Return Suc r0 "1.prems" e0 e1 show ?thesis
            by (auto intro: extends_trans)
        next
          case R: (Return u g'')
          with True Return Suc r0 "1.prems"
          have "state_of r = g''\<lparr>pieces := pieces g'' @ [or_empty ta]\<rparr>" by auto
          with e0 e1 R show ?thesis
            by (auto intro: extends_trans extends_append)
        qed
      qed
    qed
  next
    case False
    show ?thesis
    proof (cases "t = ''p''")
      case True
      with False "1.prems" have "parse_children rnd n (g\<lparr>pieces := pieces g @ [or_empty tx]\<rparr>) cs = Some r"
        by simp
      from "1.IH"(2) [OF False True this] show ?thesis
        using extends_append extends_trans by blast
    next
      case F: False
      with False "1.prems" show ?thesis by (auto simp: extends_refl)
    qed
  qed
next
  case (2 rnd n g)
  then show ?case by (auto simp: extends_refl)
next
  case (3 rnd n g c cs)
  show ?case
  proof (cases "parse rnd n g c")
    case None
    with "3.prems" show ?thesis by simp
  next
    case (Some r0)
    have e0: "extends g (state_of r0)" using "3.IH"(1) [OF Some] .
    show ?thesis
    proof (cases r0)
      case (Raise e g')
      with Some "3.prems" e0 show ?thesis by auto
    next
      case (Return u g')
      with Some "3.prems" have "parse_children rnd n g' cs = Some r'" by simp
      from "3.IH"(2) [OF Some Return this] e0 Return show ?thesis
        by (auto intro: extends_trans)
    qed
  qed
qed

lemma extends_refs: "extends g g' \<Longrightarrow> refs g' = refs (g::generator)"
  by (auto simp: extends_def)

section \<open>The capitalize flag is carried, never read\<close>

lemma random_child_element_capitalize:
  "random_child_element rnd (g\<lparr>capitalize_next_word := b\<rparr>) node =
     map_state (\<lambda>s. s\<lparr>capitalize_next_word := b\<rparr>) (random_child_element rnd g node)"
  by (cases node) (simp_all add: random_child_element_def choice_def)

lemma parse_capitalize:
  "parse rnd n (g\<lparr>capitalize_next_word := b\<rparr>) node =
     map_option (map_state (\<lambda>s. s\<lparr>capitalize_next_word := b\<rparr>)) (parse rnd n g node)"
  and parse_children_capitalize:
  "parse_children rnd n (g\<lparr>capitalize_next_word := b\<rparr>) cs =
     map_option (map_state (\<lambda>s. s\<lparr>capitalize_next_word := b\<rparr>)) (parse_children rnd n g cs)"
proof (induction rnd n g node and rnd n g cs rule: parse_induct)
  case (1 rnd n g t a tx ta cs)
  let ?rc = "random_child_element rnd g (dict_get (refs g) (map_of a ''id''))"
  show ?case
  proof (cases "t = ''xref''")
    case True
    show ?thesis
    proof (cases ?rc)
      case (Raise e g')
      with True show ?thesis by (simp add: random_child_element_capitalize)
    next
      case (Return child g')
      show ?thesis
      proof (cases n)
        case 0
        with True Return show ?thesis by (simp add: random_child_element_capitalize)
      next
        case (Suc m)
        note ih = "1.IH"(1) [OF True Return Suc]
        show ?thesis
        proof (cases "parse rnd m g' child")
          case None
          with True Return Suc ih show ?thesis
            by (simp add: random_child_element_capitalize)
        next
          case (Some r0)
          with True Return Suc ih show ?thesis
            by (cases r0) (simp_all add: random_child_element_capitalize)
        qed
      qed
    qed
  next
    case False
    show ?thesis
    proof (cases "t = ''p''")
      case True
      have l: "parse rnd n (g\<lparr>capitalize_next_word := b\<rparr>) (Element t a tx ta cs) =
          parse_children rnd n (g\<lparr>capitalize_next_word := b, pieces := pieces g @ [or_empty tx]\<rparr>) cs"
        using False True by simp
      have r: "parse rnd n g (Element t a tx ta cs) =
          parse_children rnd n (g\<lparr>pieces := pieces g @ [or_empty tx]\<rparr>) cs"
        using False True by simp
      have eq: "g\<lparr>capitalize_next_word := b, pieces := pieces g @ [or_empty tx]\<rparr> =
            g\<lparr>pieces := pieces g @ [or_empty tx], capitalize_next_word := b\<rparr>"
        by simp
      show ?thesis
        by (simp only: l r eq "1.IH"(2) [OF False True])
    next
      case F: False
      with False show ?thesis by simp
    qed
  qed
next
  case (2 rnd n g)
  show ?case by simp
next
  case (3 rnd n g c cs)
  show ?case
  proof (cases "parse rnd n g c")
    case None
    with "3.IH"(1) show ?thesis by simp
  next
    case (Some r0)
    show ?thesis
    proof (cases r0)
      case (Raise e g')
      with Some "3.IH"(1) show ?thesis by simp
    next
      case (Return u g')
      with Some "3.IH"(1) "3.IH"(2) [OF Some Return] show ?thesis by simp
    qed
  qed
qed

section \<open>Bounded reference nesting gives termination\<close>

lemma ref_depth_member: "c \<in> set cs \<Longrightarrow> ref_depth m rs c \<le> ref_depth_list m rs cs"
  by (induction cs) auto

lemma parse_children_total:
  "(\<forall>c \<in> set cs. \<forall>g. refs g = rs \<longrightarrow> (\<exists>r. parse rnd n g c = Some r)) \<Longrightarrow>
     refs g = rs \<Longrightarrow> \<exists>r. parse_children rnd n g cs = Some r"
proof (induction cs arbitrary: g)
  case Nil
  show ?case by simp
next
  case (Cons c cs)
  from Cons.prems obtain r0 where r0: "parse rnd n g c = Some r0" by auto
  show ?case
  proof (cases r0)
    case (Raise e g')
    with r0 show ?thesis by simp
  next
    case (Return u g')
    from parse_extends [OF r0] Return have "refs g' = rs"
      using Cons.prems(2) by (simp add: extends_refs)
    moreover from Cons.prems(1)
    have "\<forall>c \<in> set cs. \<forall>g. refs g = rs \<longrightarrow> (\<exists>r. parse rnd n g c = Some r)" by simp
    ultimately obtain r1 where "parse_children rnd n g' cs = Some r1"
      using Cons.IH by blast
    with r0 Return show ?thesis by simp
  qed
qed

lemma depth_bounds_fuel:
  "ref_depth m rs node \<le> m \<Longrightarrow>
     (\<forall>(g::generator) n. refs g = rs \<longrightarrow> ref_depth m rs node \<le> n \<longrightarrow>
        (\<exists>r. parse rnd n g node = Some r))"
  and depth_bounds_fuel_list:
  "ref_depth_list m rs cs \<le> m \<Longrightarrow>
     (\<forall>c \<in> set cs. \<forall>(g::generator) n. refs g = rs \<longrightarrow> ref_depth m rs c \<le> n \<longrightarrow>
        (\<exists>r. parse rnd n g c = Some r))"
proof (induction m rs node and m rs cs rule: ref_depth_ref_depth_list.induct)
  case (1 m rs t a tx ta cs)
  show ?case
  proof (intro allI impI)
    fix g :: generator and n
    assume rs: "refs g = rs" and dn: "ref_depth m rs (Element t a tx ta cs) \<le> n"
    show "\<exists>r. parse rnd n g (Element t a tx ta cs) = Some r"
    proof (cases "t = ''xref''")
      case True
      show ?thesis
      proof (cases "dict_get rs (map_of a ''id'')")
        case None
        with True rs show ?thesis by (simp add: random_child_element_def)
      next
        case (Some el)
        show ?thesis
        proof (cases "getchildren el = []")
          case True
          with \<open>t = ''xref''\<close> Some rs show ?thesis
            by (simp add: random_child_element_def choice_def)
        next
          case False
          with True Some "1.prems" obtain k where k: "m = Suc k"
            by (cases m) auto
          with True Some False "1.prems" have dk: "ref_depth_list k rs (getchildren el) \<le> k"
            by simp
          from True Some False k dn obtain n' where n': "n = Suc n'"
            and dn': "ref_depth_list k rs (getchildren el) \<le> n'"
            by (cases n) auto
          let ?g' = "g\<lparr>rand_calls := Suc (rand_calls g)\<rparr>"
          let ?child = "getchildren el ! (rnd (rand_calls g) mod length (getchildren el))"
          have mem: "?child \<in> set (getchildren el)" using False by simp
          have rc: "random_child_element rnd g (dict_get (refs g) (map_of a ''id'')) = Return ?child ?g'"
            using Some False rs by (simp add: random_child_element_def choice_def)
          from "1.IH"(1) [OF True Some False k dk] mem
          have "\<forall>(g::generator) n. refs g = rs \<longrightarrow> ref_depth k rs ?child \<le> n \<longrightarrow>
                  (\<exists>r. parse rnd n g ?child = Some r)"
            by blast
          moreover have "ref_depth k rs ?child \<le> n'"
            using ref_depth_member [OF mem, of k rs] dn' by simp
          moreover have "refs ?g' = rs" using rs by simp
          ultimately obtain r0 where "parse rnd n' ?g' ?child = Some r0" by blast
          with True rc n' show ?thesis by (cases r0) simp_all
        qed
      qed
    next
      case False
      show ?thesis
      proof (cases "t = ''p''")
        case True
        with False "1.prems" have le: "ref_depth_list m rs cs \<le> m" by simp
        from False True dn have len: "ref_depth_list m rs cs \<le> n" by simp
        have "\<exists>r. parse_children rnd n (g\<lparr>pieces := pieces g @ [or_empty tx]\<rparr>) cs = Some r"
        proof (rule parse_children_total [where rs = rs])
          show "\<forall>c \<in> set cs. \<forall>g. refs g = rs \<longrightarrow> (\<exists>r. parse rnd n g c = Some r)"
          proof (intro ballI allI impI)
            fix c and g' :: generator
            assume c: "c \<in> set cs" and g': "refs g' = rs"
            from ref_depth_member [OF c, of m rs] len have "ref_depth m rs c \<le> n" by simp
            with "1.IH"(2) [OF False True le] c g' show "\<exists>r. parse rnd n g' c = Some r" by blast
          qed
        next
          show "refs (g\<lparr>pieces := pieces g @ [or_empty tx]\<rparr>) = rs" using rs by simp
        qed
        with False True show ?thesis by simp
      next
        case F: False
        with False show ?thesis by simp
      qed
    qed
  qed
next
  case (2 m rs)
  show ?case by simp
next
  case (3 m rs c cs)
  from "3.prems" have a: "ref_depth m rs c \<le> m" and b: "ref_depth_list m rs cs \<le> m" by simp_all
  from "3.IH"(1) [OF a] "3.IH"(2) [OF b] show ?case by simp
qed

section \<open>Choosing the default start\<close>



section \<open>Fuel and reference nesting\<close>

text \<open>
  More fuel never changes a result: the least fuel for which a call returns is the
  number of reference expansions the call nests.
\<close>

lemma parse_fuel_mono:
  "parse rnd n g node = Some r \<Longrightarrow> parse rnd (n + k) g node = Some r"
  and parse_children_fuel_mono:
  "parse_children rnd n g cs = Some r' \<Longrightarrow> parse_children rnd (n + k) g cs = Some r'"
proof (induction rnd n g node and rnd n g cs arbitrary: r and r' rule: parse_induct)
  case (1 rnd n g t a tx ta cs)
  let ?rc = "random_child_element rnd g (dict_get (refs g) (map_of a ''id''))"
  show ?case
  proof (cases "t = ''xref''")
    case True
    show ?thesis
    proof (cases ?rc)
      case (Raise e g')
      with True "1.prems" show ?thesis by simp
    next
      case (Return child g')
      show ?thesis
      proof (cases n)
        case 0
        with True Return "1.prems" show ?thesis by simp
      next
        case (Suc m)
        from True Return Suc "1.prems" obtain r0 where r0: "parse rnd m g' child = Some r0"
          by (auto split: option.splits)
        from "1.IH"(1) [OF True Return Suc r0] have "parse rnd (m + k) g' child = Some r0" .
        with True Return Suc r0 "1.prems" show ?thesis by simp
      qed
    qed
  next
    case False
    show ?thesis
    proof (cases "t = ''p''")
      case True
      with False "1.prems" "1.IH"(2) [OF False True] show ?thesis by simp
    next
      case F: False
      with False "1.prems" show ?thesis by simp
    qed
  qed
next
  case (2 rnd n g)
  then show ?case by simp
next
  case (3 rnd n g c cs)
  from "3.prems" obtain r0 where r0: "parse rnd n g c = Some r0"
    by (auto split: option.splits)
  from "3.IH"(1) [OF r0] have k: "parse rnd (n + k) g c = Some r0" .
  show ?case
  proof (cases r0)
    case (Raise e g')
    with r0 "3.prems" have "r' = r0" by simp
    with k Raise show ?thesis by simp
  next
    case (Return u g')
    with r0 "3.prems" have "parse_children rnd n g' cs = Some r'" by simp
    from "3.IH"(2) [OF r0 Return this] r0 k Return show ?thesis by simp
  qed
qed

text \<open>
  A depth within its bound is the depth for every larger bound too.
\<close>

lemma ref_depth_stable:
  "ref_depth m rs node \<le> m \<Longrightarrow> ref_depth (m + k) rs node = ref_depth m rs node"
  and ref_depth_list_stable:
  "ref_depth_list m rs cs \<le> m \<Longrightarrow> ref_depth_list (m + k) rs cs = ref_depth_list m rs cs"
proof (induction m rs node and m rs cs rule: ref_depth_ref_depth_list.induct)
  case (1 m rs t a tx ta cs)
  show ?case
  proof (cases "t = ''xref''")
    case True
    show ?thesis
    proof (cases "dict_get rs (map_of a ''id'')")
      case None
      with True show ?thesis by simp
    next
      case (Some el)
      show ?thesis
      proof (cases "getchildren el = []")
        case True
        with \<open>t = ''xref''\<close> Some show ?thesis by simp
      next
        case False
        with True Some "1.prems" obtain j where j: "m = Suc j" by (cases m) auto
        with True Some False "1.prems" have "ref_depth_list j rs (getchildren el) \<le> j" by simp
        from "1.IH"(1) [OF True Some False j this] True Some False j show ?thesis by simp
      qed
    qed
  next
    case False
    show ?thesis
    proof (cases "t = ''p''")
      case True
      with False "1.prems" "1.IH"(2) [OF False True] show ?thesis by simp
    next
      case F: False
      with False show ?thesis by simp
    qed
  qed
next
  case (2 m rs)
  show ?case by simp
next
  case (3 m rs c cs)
  from "3.prems" have "ref_depth m rs c \<le> m" "ref_depth_list m rs cs \<le> m" by simp_all
  with "3.IH" show ?case by simp
qed

text \<open>
  The two rules that refer to each other have no bounded depth, and expanding either
  of them never returns, whatever the fuel: the program recurses until the Python
  interpreter gives up.
\<close>

lemma loop_unbounded:
  "ref_depth m (refs loop_generator) (xref_to ''a'') = Suc m \<and>
   ref_depth m (refs loop_generator) (xref_to ''b'') = Suc m"
proof (induction m)
  case 0
  show ?case by code_simp
next
  case (Suc m)
  have r: "refs loop_generator =
      [(Some ''a'', Element ''ref'' [(''id'', ''a'')] None None
          [Element ''p'' [] None None [xref_to ''b'']]),
        (Some ''b'', Element ''ref'' [(''id'', ''b'')] None None
          [Element ''p'' [] None None [xref_to ''a'']])]"
    by code_simp
  have a: "ref_depth (Suc m) (refs loop_generator) (xref_to ''a'') =
      Suc (ref_depth m (refs loop_generator) (xref_to ''b''))"
    unfolding r by (simp add: xref_to_def dict_get_def)
  have b: "ref_depth (Suc m) (refs loop_generator) (xref_to ''b'') =
      Suc (ref_depth m (refs loop_generator) (xref_to ''a''))"
    unfolding r by (simp add: xref_to_def dict_get_def)
  from a b Suc show ?case by simp
qed

lemma loop_diverges:
  "parse rnd n (loop_generator\<lparr>pieces := ps, rand_calls := k\<rparr>) (xref_to ''a'') = None \<and>
   parse rnd n (loop_generator\<lparr>pieces := ps, rand_calls := k\<rparr>) (xref_to ''b'') = None"
proof (induction n arbitrary: ps k)
  case 0
  show ?case
    by (simp add: loop_generator_def load_grammar_def private_load_def open_anything_def
        py_open_def no_files_def loop_parser_def table_parser_def loop_doc_def loop_grammar_def
        blank_def index_refs_def findall_children_def get_def xref_to_def
        random_child_element_def choice_def dict_get_def)
next
  case (Suc n)
  have g: "loop_generator = blank\<lparr>grammar := loop_grammar, refs := index_refs loop_grammar\<rparr>"
    by code_simp
  have r: "refs (loop_generator\<lparr>pieces := ps, rand_calls := k\<rparr>) =
      [(Some ''a'', Element ''ref'' [(''id'', ''a'')] None None
          [Element ''p'' [] None None [Element ''xref'' [(''id'', ''b'')] None None []]]),
        (Some ''b'', Element ''ref'' [(''id'', ''b'')] None None
          [Element ''p'' [] None None [Element ''xref'' [(''id'', ''a'')] None None []]])]"
    for ps k
    by (simp add: g index_refs_def loop_grammar_def findall_children_def get_def)
  from Suc [where ps = "ps @ ['''']" and k = "Suc k"] show ?case
    by (simp add: r xref_to_def random_child_element_def choice_def dict_get_def or_empty_def)
qed

section \<open>The worked example\<close>

lemma hi_example:
  "map_option (\<lambda>r. output_text (state_of r))
     (init no_files hi_parser rnd 2 blank (Text hi_doc) (Some (xref_markup ''root''))) = Some ''hi!''"
  by (simp add: init_def load_grammar_def load_source_def private_load_def open_anything_def
      py_open_def no_files_def hi_parser_def table_parser_def hi_doc_def hi_grammar_def
      xref_markup_def xref_to_def blank_def index_refs_def findall_children_def get_def
      refresh_def reset_def random_child_element_def choice_def dict_get_def or_empty_def
      output_text_def numeral_2_eq_2)

section \<open>Expansion reads the grammar and writes the accumulator\<close>

text \<open>
  Claim C8. A call of \<^verbatim>\<open>refresh\<close> that comes back, with the text or with an exception,
  leaves the grammar, the rule mapping and the start expression as they were. The state
  after the call is the reset state with fragments appended to \<open>pieces\<close> and with
  draws made from the random source: nothing else is written.
\<close>

theorem refresh_read_only:
  assumes "refresh rnd n g = Some r"
  shows "grammar (state_of r) = grammar g \<and> refs (state_of r) = refs g \<and>
         source (state_of r) = source g \<and> extends (reset g) (state_of r)"
proof -
  from assms obtain r0 where r0: "parse rnd n (reset g) (source (reset g)) = Some r0"
    and st: "state_of r = state_of r0"
    by (auto simp: refresh_def split: option.splits result.splits)
  from parse_extends [OF r0] st have e: "extends (reset g) (state_of r)" by simp
  then obtain ys k where
    "state_of r = (reset g)\<lparr>pieces := pieces (reset g) @ ys, rand_calls := rand_calls (reset g) + k\<rparr>"
    unfolding extends_def by blast
  then have "grammar (state_of r) = grammar g" "refs (state_of r) = refs g"
    "source (state_of r) = source g"
    by (simp_all add: reset_def)
  with e show ?thesis by simp
qed

theorem refresh_read_only_witness:
  "refresh second_choice 2 ab_generator \<noteq> None \<and>
   grammar (state_of (the (refresh second_choice 2 ab_generator))) = grammar ab_generator \<and>
   refs (state_of (the (refresh second_choice 2 ab_generator))) = refs ab_generator \<and>
   source (state_of (the (refresh second_choice 2 ab_generator))) = source ab_generator"
proof -
  have h: "refresh second_choice 2 ab_generator = Some (the (refresh second_choice 2 ab_generator))"
    by code_simp
  from h have "refresh second_choice 2 ab_generator \<noteq> None" by (metis option.distinct(1))
  with refresh_read_only [OF h] show ?thesis by blast
qed

section \<open>The capitalize flag\<close>

text \<open>
  Claim C9. The flag \<^verbatim>\<open>capitalize_next_word\<close> has no effect on the output. \<^verbatim>\<open>refresh\<close>
  gives the same result whatever the flag was, since \<^verbatim>\<open>reset\<close> sets it to \<^verbatim>\<open>False\<close>; and
  no expansion step reads it: \<^verbatim>\<open>parse\<close> from two states that differ only in the flag
  makes the same choices, appends the same fragments, raises the same exception or
  runs out of fuel alike, and hands the flag on as it found it.
\<close>

theorem capitalize_flag_unused:
  "refresh rnd n (g\<lparr>capitalize_next_word := b\<rparr>) = refresh rnd n g \<and>
   parse rnd n (g\<lparr>capitalize_next_word := b\<rparr>) node =
     map_option (map_state (\<lambda>s. s\<lparr>capitalize_next_word := b\<rparr>)) (parse rnd n g node) \<and>
   map_option (\<lambda>r. output_text (state_of r)) (parse rnd n (g\<lparr>capitalize_next_word := b\<rparr>) node) =
     map_option (\<lambda>r. output_text (state_of r)) (parse rnd n g node)"
proof -
  have "reset (g\<lparr>capitalize_next_word := b\<rparr>) = reset g" by (simp add: reset_def)
  then have a: "refresh rnd n (g\<lparr>capitalize_next_word := b\<rparr>) = refresh rnd n g"
    by (simp add: refresh_def)
  have out: "output_text (state_of (map_state (\<lambda>s. s\<lparr>capitalize_next_word := b\<rparr>) r)) =
      output_text (state_of r)" for r :: "unit result"
    by (cases r) (simp_all add: output_text_def)
  have c: "map_option (\<lambda>r. output_text (state_of r)) (parse rnd n (g\<lparr>capitalize_next_word := b\<rparr>) node) =
     map_option (\<lambda>r. output_text (state_of r)) (parse rnd n g node)"
    by (simp add: parse_capitalize option.map_comp comp_def out)
  from a c show ?thesis by (simp add: parse_capitalize)
qed

section \<open>Loading the rule mapping\<close>

text \<open>
  Claim C10. When the grammar document parses, \<^verbatim>\<open>load_grammar\<close> returns without an
  exception whatever the ids of the rules are, and the rule mapping binds each id that
  one or more top-level rules carry (so also an id that two or more rules share) to the
  last of these rules in document order.
\<close>

theorem load_grammar_last_wins:
  assumes "open_anything w gr = Inr doc" and "prs doc = Some root"
    and "filter (\<lambda>r. get r ''id'' = k) (findall_children ''ref'' root) \<noteq> []"
  shows "load_grammar w prs g gr = Return () (g\<lparr>grammar := root, refs := index_refs root\<rparr>) \<and>
         dict_get (index_refs root) k =
           Some (last (filter (\<lambda>r. get r ''id'' = k) (findall_children ''ref'' root)))"
proof -
  from assms(1,2) have "private_load w prs g gr = Return root g"
    by (simp add: private_load_def)
  then have "load_grammar w prs g gr = Return () (g\<lparr>grammar := root, refs := index_refs root\<rparr>)"
    by (simp add: load_grammar_def)
  moreover from assms(3) have "dict_get (index_refs root) k =
      Some (last (filter (\<lambda>r. get r ''id'' = k) (findall_children ''ref'' root)))"
    by (simp add: index_refs_get split: list.splits)
  ultimately show ?thesis by simp
qed

theorem load_grammar_last_wins_witness:
  "length (filter (\<lambda>r. get r ''id'' = Some ''a'') (findall_children ''ref'' odd_grammar)) = 2 \<and>
   load_grammar no_files odd_parser blank (Text odd_doc) =
     Return () (blank\<lparr>grammar := odd_grammar, refs := index_refs odd_grammar\<rparr>) \<and>
   dict_get (index_refs odd_grammar) (Some ''a'') =
     Some (Element ''ref'' [(''id'', ''a'')] None None [Element ''p'' [] (Some ''2'') None []])"
proof -
  have a: "open_anything no_files (Text odd_doc) = Inr odd_doc" by code_simp
  have b: "odd_parser odd_doc = Some odd_grammar" by code_simp
  have f: "filter (\<lambda>r. get r ''id'' = Some ''a'') (findall_children ''ref'' odd_grammar) =
      [Element ''ref'' [(''id'', ''a'')] None None [Element ''p'' [] (Some ''1'') None []],
       Element ''ref'' [(''id'', ''a'')] None None [Element ''p'' [] (Some ''2'') None []]]"
    by code_simp
  then have c: "filter (\<lambda>r. get r ''id'' = Some ''a'') (findall_children ''ref'' odd_grammar) \<noteq> []"
    by simp
  from load_grammar_last_wins [where prs = odd_parser and g = blank, OF a b c] f
  show ?thesis by simp
qed

text \<open>
  Claim C7 says that every rule of a loaded grammar has a unique, non-empty id and that
  the mapping never merges or drops rules. The loader does not check any of this: the
  document below has five rules and loads into a mapping of four keys, one of them
  \<^verbatim>\<open>None\<close> (the rule without an id) and one the empty string.
\<close>

theorem rule_ids_counterexample:
  "load_grammar no_files odd_parser blank (Text odd_doc) =
     Return () (blank\<lparr>grammar := odd_grammar, refs := index_refs odd_grammar\<rparr>) \<and>
   length (findall_children ''ref'' odd_grammar) = 5 \<and>
   dict_keys (index_refs odd_grammar) = [Some ''a'', None, Some [], Some ''e'']"
  by code_simp

text \<open>
  Claim C7, amended. In a loaded grammar the keys of the rule mapping are pairwise
  distinct, and they are exactly the id values of the top-level rules of the document,
  where the id value of a rule without the attribute is \<^verbatim>\<open>None\<close> and an empty id is
  kept as it is. Rules that share an id value share one entry.
\<close>

theorem loaded_rule_ids:
  assumes "load_grammar w prs g gr = Return u g'"
  shows "distinct (dict_keys (refs g')) \<and>
         set (dict_keys (refs g')) =
           (\<lambda>r. get r ''id'') ` set (findall_children ''ref'' (grammar g'))"
proof -
  from assms obtain root where "g' = g\<lparr>grammar := root, refs := index_refs root\<rparr>"
    by (auto simp: load_grammar_def private_load_def split: result.splits sum.splits option.splits)
  then show ?thesis by (simp add: index_refs_distinct index_refs_keys)
qed

theorem loaded_rule_ids_witness:
  "distinct (dict_keys (refs (blank\<lparr>grammar := odd_grammar, refs := index_refs odd_grammar\<rparr>))) \<and>
   set (dict_keys (refs (blank\<lparr>grammar := odd_grammar, refs := index_refs odd_grammar\<rparr>))) =
     {Some ''a'', None, Some [], Some ''e''}"
proof -
  have h: "load_grammar no_files odd_parser blank (Text odd_doc) =
     Return () (blank\<lparr>grammar := odd_grammar, refs := index_refs odd_grammar\<rparr>)"
    by code_simp
  have "(\<lambda>r. get r ''id'') ` set (findall_children ''ref'' odd_grammar) =
      {Some ''a'', None, Some [], Some ''e''}"
    by (simp add: findall_children_def odd_grammar_def get_def) 
  with loaded_rule_ids [OF h] show ?thesis by simp
qed

section \<open>The default start\<close>



section \<open>Looking up the alternatives of a rule\<close>




section \<open>A single rule of plain text\<close>

text \<open>
  Claim C1. Take a loaded grammar with exactly one rule \<open>r\<close>, whose only child is a
  paragraph without children, and a start expression that refers to the id of \<open>r\<close>.
  Then \<^verbatim>\<open>refresh\<close> returns the text of that paragraph (the empty string if it has
  none), for every random source \<open>rnd\<close> and with one level of reference expansion;
  the final state is the same for every random source as well.
\<close>

theorem generate_single_literal_rule:
  assumes "refs g = index_refs (grammar g)"
    and "findall_children ''ref'' (grammar g) = [r]"
    and "getchildren r = [Element ''p'' b tx tb []]"
    and "source g = Element ''xref'' a sx None cs"
    and "map_of a ''id'' = get r ''id''"
  shows "refresh rnd (Suc n) g =
           Some (Return (or_empty tx)
             (g\<lparr>pieces := [or_empty tx, ''''], capitalize_next_word := False,
                rand_calls := Suc (rand_calls g)\<rparr>))"
proof -
  from assms(1,2) have rs: "refs g = [(get r ''id'', r)]"
    by (simp add: index_refs_def)
  let ?g0 = "reset g"
  have lk: "dict_get (refs ?g0) (map_of a ''id'') = Some r"
    using rs assms(5) by (simp add: reset_def dict_get_def)
  have rc: "random_child_element rnd ?g0 (Some r) =
      Return (Element ''p'' b tx tb []) (?g0\<lparr>rand_calls := Suc (rand_calls ?g0)\<rparr>)"
    using assms(3) by (simp add: random_child_element_def choice_def)
  have pz: "pieces ?g0 = []" by (simp add: reset_def)
  have p: "parse rnd n (?g0\<lparr>rand_calls := Suc (rand_calls ?g0)\<rparr>) (Element ''p'' b tx tb []) =
      Some (Return () (?g0\<lparr>rand_calls := Suc (rand_calls ?g0), pieces := [or_empty tx]\<rparr>))"
    by (simp add: reset_def)
  have "parse rnd (Suc n) ?g0 (Element ''xref'' a sx None cs) =
      Some (Return () (?g0\<lparr>rand_calls := Suc (rand_calls ?g0), pieces := [or_empty tx, '''']\<rparr>))"
    using lk rc p pz by (simp add: or_empty_def)
  then show ?thesis
    using assms(4) by (simp add: refresh_def reset_def output_text_def)
qed

theorem generate_single_literal_rule_witness:
  "refresh second_choice 1 hello_generator =
     Some (Return ''hello world''
       (hello_generator\<lparr>pieces := [''hello world'', ''''], capitalize_next_word := False,
          rand_calls := Suc (rand_calls hello_generator)\<rparr>))"
proof -
  have 1: "refs hello_generator = index_refs (grammar hello_generator)" by code_simp
  have 2: "findall_children ''ref'' (grammar hello_generator) =
      [Element ''ref'' [(''id'', ''greeting'')] None None
         [Element ''p'' [] (Some ''hello world'') None []]]" by code_simp
  have 3: "getchildren (Element ''ref'' [(''id'', ''greeting'')] None None
         [Element ''p'' [] (Some ''hello world'') None []]) =
      [Element ''p'' [] (Some ''hello world'') None []]" by simp
  have 4: "source hello_generator = Element ''xref'' [(''id'', ''greeting'')] None None []"
    by code_simp
  have 5: "map_of [(''id'', ''greeting'')] ''id'' =
      get (Element ''ref'' [(''id'', ''greeting'')] None None
         [Element ''p'' [] (Some ''hello world'') None []]) ''id''" by code_simp
  from generate_single_literal_rule [OF 1 2 3 4 5, of second_choice 0]
  show ?thesis by (simp add: or_empty_def)
qed

section \<open>The tail of a reference\<close>

text \<open>
  Claim C3. When \<^verbatim>\<open>parse_xref\<close>, the expansion of a reference, returns, the state is the state \<open>g1\<close> after
  the expansion of the chosen alternative with the tail of the reference appended as
  the last fragment; \<open>g1\<close> extends the state before, so the tail stands after all that
  the referenced rule produced. In the example of the claim (rule \<^verbatim>\<open>x\<close> is \<^verbatim>\<open>hi\<close>, the
  paragraph of rule \<^verbatim>\<open>root\<close> is a reference to \<^verbatim>\<open>x\<close> with tail \<^verbatim>\<open>!\<close>) the generator
  produces \<^verbatim>\<open>hi!\<close> for every random source.
\<close>

theorem xref_tail_after_expansion:
  "(parse_xref rnd n g node = Some (Return u g') \<longrightarrow>
      (\<exists>m el g1. n = Suc m \<and> dict_get (refs g) (get node ''id'') = Some el \<and>
         getchildren el \<noteq> [] \<and>
         parse rnd m (g\<lparr>rand_calls := Suc (rand_calls g)\<rparr>)
           (getchildren el ! (rnd (rand_calls g) mod length (getchildren el))) =
           Some (Return () g1) \<and>
         extends g g1 \<and> g' = g1\<lparr>pieces := pieces g1 @ [or_empty (tail node)]\<rparr>)) \<and>
   map_option (\<lambda>r. output_text (state_of r))
     (init no_files hi_parser rnd 2 blank (Text hi_doc) (Some (xref_markup ''root''))) = Some ''hi!''"
proof (intro conjI impI)
  assume p: "parse_xref rnd n g node = Some (Return u g')"
  obtain t a tx ta cs where node: "node = Element t a tx ta cs" by (cases node)
  let ?g = "g\<lparr>rand_calls := Suc (rand_calls g)\<rparr>"
  let ?k = "get node ''id''"
  from p obtain el where el: "dict_get (refs g) ?k = Some el"
    by (cases "dict_get (refs g) ?k") (auto simp: node get_def random_child_element_def)
  with p have ne: "getchildren el \<noteq> []"
    by (auto simp: node get_def random_child_element_def choice_def split: if_splits)
  let ?c = "getchildren el ! (rnd (rand_calls g) mod length (getchildren el))"
  from el ne have rc: "random_child_element rnd g (dict_get (refs g) ?k) = Return ?c ?g"
    by (simp add: random_child_element_def choice_def)
  from p rc obtain m where m: "n = Suc m" by (cases n) (auto simp: node get_def)
  from p rc m obtain g1 where g1: "parse rnd m ?g ?c = Some (Return () g1)"
    and g': "g' = g1\<lparr>pieces := pieces g1 @ [or_empty (tail node)]\<rparr>"
    by (auto simp: node get_def split: option.splits result.splits)
  from parse_extends [OF g1] have "extends ?g g1" by simp
  with extends_draw [of g] have "extends g g1" by (rule extends_trans)
  with m el ne g1 g' show "\<exists>m el g1. n = Suc m \<and> dict_get (refs g) ?k = Some el \<and>
         getchildren el \<noteq> [] \<and>
         parse rnd m ?g (getchildren el ! (rnd (rand_calls g) mod length (getchildren el))) =
           Some (Return () g1) \<and>
         extends g g1 \<and> g' = g1\<lparr>pieces := pieces g1 @ [or_empty (tail node)]\<rparr>"
    by blast
next
  show "map_option (\<lambda>r. output_text (state_of r))
     (init no_files hi_parser rnd 2 blank (Text hi_doc) (Some (xref_markup ''root''))) = Some ''hi!''"
    by (rule hi_example)
qed

theorem xref_tail_after_expansion_witness:
  "parse_xref first_choice 1 hi_generator (Element ''xref'' [(''id'', ''x'')] None (Some ''!'') []) =
     Some (Return () (hi_generator\<lparr>pieces := [''hi'', ''!''], rand_calls := 1\<rparr>)) \<and>
   (\<exists>m el g1. (1::nat) = Suc m \<and>
      dict_get (refs hi_generator)
        (get (Element ''xref'' [(''id'', ''x'')] None (Some ''!'') []) ''id'') = Some el \<and>
      getchildren el \<noteq> [] \<and>
      parse first_choice m (hi_generator\<lparr>rand_calls := Suc (rand_calls hi_generator)\<rparr>)
        (getchildren el ! (first_choice (rand_calls hi_generator) mod length (getchildren el))) =
        Some (Return () g1) \<and>
      extends hi_generator g1 \<and>
      hi_generator\<lparr>pieces := [''hi'', ''!''], rand_calls := 1\<rparr> =
        g1\<lparr>pieces := pieces g1 @
          [or_empty (tail (Element ''xref'' [(''id'', ''x'')] None (Some ''!'') []))]\<rparr>) \<and>
   map_option (\<lambda>r. output_text (state_of r))
     (init no_files hi_parser first_choice 2 blank (Text hi_doc) (Some (xref_markup ''root''))) =
     Some ''hi!''"
proof -
  have p: "parse_xref first_choice 1 hi_generator
      (Element ''xref'' [(''id'', ''x'')] None (Some ''!'') []) =
     Some (Return () (hi_generator\<lparr>pieces := [''hi'', ''!''], rand_calls := 1\<rparr>))"
    by code_simp
  from xref_tail_after_expansion [of first_choice 1 hi_generator
      "Element ''xref'' [(''id'', ''x'')] None (Some ''!'') []" "()"
      "hi_generator\<lparr>pieces := [''hi'', ''!''], rand_calls := 1\<rparr>"] p
  show ?thesis by blast
qed

section \<open>Failures of loading\<close>




section \<open>Termination\<close>

text \<open>
  Claim C6 says that a call on an acyclic grammar terminates with a recursion depth
  equal to the reference-nesting depth of the grammar. The depth of a call depends on
  the alternatives it draws: rule \<^verbatim>\<open>a\<close> below nests references two deep, the call
  that draws its first alternative returns within one level, and only the call that
  draws the second one needs two.
\<close>

theorem nesting_depth_counterexample:
  "ref_depth 2 (refs ab_generator) (source ab_generator) = 2 \<and>
   refresh first_choice 1 ab_generator =
     Some (Return ''x'' (ab_generator\<lparr>pieces := [''x'', ''''], rand_calls := 1\<rparr>)) \<and>
   refresh second_choice 1 ab_generator = None \<and>
   refresh second_choice 2 ab_generator =
     Some (Return ''y'' (ab_generator\<lparr>pieces := ['''', ''y'', '''', ''''], rand_calls := 2\<rparr>))"
  by code_simp

text \<open>
  Claim C6, amended. If the references reachable from the start expression nest to a
  bounded depth \<open>d\<close> (the grammar has no reference cycle there), then every call of
  \<^verbatim>\<open>refresh\<close> returns, with the text or with an exception, for every random source, and
  it nests at most \<open>d\<close> reference expansions: fuel \<open>d\<close> is enough.
\<close>

theorem bounded_nesting_terminates:
  assumes "ref_depth m (refs g) (source g) \<le> m"
    and "ref_depth m (refs g) (source g) \<le> n"
  shows "\<exists>r. refresh rnd n g = Some r"
proof -
  have "refs (reset g) = refs g" "source (reset g) = source g" by (simp_all add: reset_def)
  with depth_bounds_fuel [OF assms(1), of rnd] assms(2)
  obtain r0 where "parse rnd n (reset g) (source (reset g)) = Some r0" by metis
  then show ?thesis by (cases r0) (simp_all add: refresh_def)
qed

theorem bounded_nesting_terminates_witness:
  "\<exists>r. refresh second_choice 2 ab_generator = Some r"
proof -
  have "ref_depth 2 (refs ab_generator) (source ab_generator) \<le> 2" by code_simp
  from bounded_nesting_terminates [OF this this] show ?thesis .
qed

end
